theory Spec2Isabelle
  imports Complex_Main "HOL-Library.Char_ord" "HOL-Library.List_Lexorder" "HOL-Library.Sublist"
begin

section \<open>Explainable boosting machines: binning, boosting loop and model merging\<close>

text \<open>
  A shallow embedding of \<^verbatim>\<open>interpret/glassbox/ebm/utils.py\<close> and of the parts of
  \<^verbatim>\<open>interpret/glassbox/ebm/ebm.py\<close> that call it. Python's unbounded integers are
  \<^typ>\<open>int\<close>. Python and numpy floats are idealised as \<^typ>\<open>real\<close>: every statement
  below is about exact arithmetic, rounding, NaN and the infinities are outside the model.
  Exceptions are values of the type \<open>error\<close>, returned on the left of a sum.
\<close>

datatype error =
    ValueError
  | ZeroDivisionError
  | IndexError
  | TypeError
  | AttributeError
  | NotImplementedError
  | Exception string

subsection \<open>\<^verbatim>\<open>EBMUtils.normalize_initial_random_seed\<close>\<close>

definition normalize_initial_random_seed :: "int \<Rightarrow> int" where
  "normalize_initial_random_seed seed =
     (if 2147483647 \<le> seed then seed mod 2147483647
      else if seed \<le> - 2147483647 then - ((- seed) mod 2147483647)
      else seed)"

subsection \<open>\<^verbatim>\<open>EBMUtils.cyclic_gradient_boost\<close>: the round loop\<close>

text \<open>
  The native booster is an external collaborator: what the loop sees of it is the validation
  metric that \<^verbatim>\<open>apply_term_update\<close> returns after each term update. The model takes these
  metrics as input, one list per round (one entry per term, in term order); the noise added
  to the update tensors under differential privacy only changes what the booster is told and
  is not part of the loop's control state. A metric is \<open>Some v\<close>, and \<open>None\<close> stands for
  \<^verbatim>\<open>np.inf\<close>, the initial value of \<^verbatim>\<open>min_metric\<close> and \<^verbatim>\<open>bp_metric\<close>.
\<close>

record boost_state =
  min_metric :: "real option"
  no_change_run_length :: nat
  bp_metric :: "real option"

fun apply_term_updates :: "real option \<Rightarrow> real list \<Rightarrow> real option" where
  "apply_term_updates m [] = m"
| "apply_term_updates m (curr_metric # rest) =
     apply_term_updates (Some (case m of None \<Rightarrow> curr_metric | Some v \<Rightarrow> min curr_metric v)) rest"

text \<open>The test \<^verbatim>\<open>min_metric + early_stopping_tolerance < bp_metric\<close>.\<close>

definition improves :: "real \<Rightarrow> real option \<Rightarrow> real option \<Rightarrow> bool" where
  "improves tol m bp =
     (case m of None \<Rightarrow> False
      | Some a \<Rightarrow> (case bp of None \<Rightarrow> True | Some b \<Rightarrow> a + tol < b))"

text \<open>One round: the sweep over the terms, then the early-stopping bookkeeping.\<close>

definition boost_round :: "real \<Rightarrow> boost_state \<Rightarrow> real list \<Rightarrow> boost_state" where
  "boost_round early_stopping_tolerance st metrics =
     (let m = apply_term_updates (min_metric st) metrics;
          bp = (if no_change_run_length st = 0 then m else bp_metric st);
          n = (if improves early_stopping_tolerance m bp then 0
               else no_change_run_length st + 1)
      in \<lparr>min_metric = m, no_change_run_length = n, bp_metric = bp\<rparr>)"

definition early_stop :: "int \<Rightarrow> boost_state \<Rightarrow> bool" where
  "early_stop early_stopping_rounds st \<longleftrightarrow>
     early_stopping_rounds \<ge> 0 \<and> int (no_change_run_length st) \<ge> early_stopping_rounds"

text \<open>
  The \<^verbatim>\<open>for episode_index in range(max_rounds)\<close> loop with its \<^verbatim>\<open>break\<close>. The result lists
  the state after every round that was run, so its length is the number of rounds run.
\<close>

fun boost_rounds :: "int \<Rightarrow> real \<Rightarrow> boost_state \<Rightarrow> real list list \<Rightarrow> boost_state list" where
  "boost_rounds early_stopping_rounds tol st [] = []"
| "boost_rounds early_stopping_rounds tol st (metrics # rest) =
     (let st' = boost_round tol st metrics in
      if early_stop early_stopping_rounds st' then [st']
      else st' # boost_rounds early_stopping_rounds tol st' rest)"

definition boost_init :: boost_state where
  "boost_init = \<lparr>min_metric = None, no_change_run_length = 0, bp_metric = None\<rparr>"

definition cyclic_gradient_boost ::
  "int \<Rightarrow> real \<Rightarrow> int \<Rightarrow> (nat \<Rightarrow> real list) \<Rightarrow> boost_state list" where
  "cyclic_gradient_boost early_stopping_rounds early_stopping_tolerance max_rounds metrics =
     boost_rounds early_stopping_rounds early_stopping_tolerance boost_init
       (map metrics [0..<nat max_rounds])"

text \<open>The \<^verbatim>\<open>episode_index\<close> that the source returns: the index of the last round run.\<close>

definition episode_index :: "boost_state list \<Rightarrow> nat" where
  "episode_index tr = length tr - 1"

text \<open>The state in which round \<open>k\<close> starts.\<close>
definition entry_state :: "boost_state \<Rightarrow> boost_state list \<Rightarrow> nat \<Rightarrow> boost_state" where
  "entry_state st tr k = (if k = 0 then st else tr ! (k - 1))"

subsection \<open>\<^verbatim>\<open>DPUtils.validate_eps_delta\<close> and the start of \<^verbatim>\<open>BaseEBM.fit\<close>\<close>

text \<open>
  An unset parameter (\<^verbatim>\<open>None\<close>) is \<open>None\<close>. The four disjuncts of the source are tested
  in its order.
\<close>

definition validate_eps_delta :: "real option \<Rightarrow> real option \<Rightarrow> error + unit" where
  "validate_eps_delta eps delta =
     (case eps of
        None \<Rightarrow> Inl ValueError
      | Some e \<Rightarrow>
          if e \<le> 0 then Inl ValueError
          else (case delta of
                  None \<Rightarrow> Inl ValueError
                | Some d \<Rightarrow> if d \<le> 0 then Inl ValueError else Inr ()))"

text \<open>
  \<^verbatim>\<open>BaseEBM.fit\<close> assigns the attributes of the estimator only in its last statements
  (\<^verbatim>\<open>self.n_samples_ = ...\<close> to \<^verbatim>\<open>self.has_fitted_ = True\<close>), where nothing can raise any
  more. The estimator is therefore a record of the hyperparameters the privacy calculations
  read and one field, \<open>fitted\<close>, that holds all fitted attributes together. Everything after
  the privacy calculations (binning, noise scale, boosting, post-processing) is the parameter
  \<open>train\<close>: it receives the split budget and either raises or returns the fitted attributes.
\<close>

record 'f estimator =
  is_private :: bool
  epsilon :: "real option"
  delta :: "real option"
  bin_budget_frac :: real
  privacy_schema_target :: "(real \<times> real) option"
  fitted :: "'f option"

record budget =
  domain_size :: real
  bin_eps :: real
  training_eps :: real
  bin_delta :: real
  training_delta :: real

definition privacy_calculations :: "'f estimator \<Rightarrow> real list \<Rightarrow> error + budget option" where
  "privacy_calculations self y =
     (if is_private self then
        (case validate_eps_delta (epsilon self) (delta self) of
           Inl e \<Rightarrow> Inl e
         | Inr _ \<Rightarrow>
             (case (case privacy_schema_target self of
                      None \<Rightarrow> Inr (Max (set y) - Min (set y))
                    | Some (min_target, max_target) \<Rightarrow>
                        if max_target < min_target then Inl ValueError
                        else Inr (max_target - min_target)) of
                Inl e \<Rightarrow> Inl e
              | Inr ds \<Rightarrow>
                  let eps = the (epsilon self); dl = the (delta self);
                      be = eps * bin_budget_frac self
                  in Inr (Some \<lparr>domain_size = ds, bin_eps = be, training_eps = eps - be,
                                bin_delta = dl / 2, training_delta = dl / 2\<rparr>)))
      else Inr None)"

definition fit ::
  "(budget option \<Rightarrow> real list \<Rightarrow> real list \<Rightarrow> error + 'f) \<Rightarrow> 'f estimator \<Rightarrow> nat
     \<Rightarrow> real list \<Rightarrow> real list option \<Rightarrow> (error + unit) \<times> 'f estimator" where
  "fit train self n_samples y sample_weight =
     (if n_samples \<le> 0 then (Inl ValueError, self)
      else if n_samples \<noteq> length y then (Inl ValueError, self)
      else if (case sample_weight of None \<Rightarrow> False | Some w \<Rightarrow> n_samples \<noteq> length w)
        then (Inl ValueError, self)
      else
        let w = (case sample_weight of None \<Rightarrow> replicate (length y) 1 | Some w \<Rightarrow> w) in
        case privacy_calculations self y of
          Inl e \<Rightarrow> (Inl e, self)
        | Inr b \<Rightarrow>
            (case train b y w of
               Inl e \<Rightarrow> (Inl e, self)
             | Inr f \<Rightarrow> (Inr (), self\<lparr>fitted := Some f\<rparr>)))"

subsection \<open>numpy helpers used by the private binning routines\<close>

text \<open>
  \<^verbatim>\<open>np.histogram(a, bins, range=(min_val, max_val), weights)\<close> with an integer number of bins:
  \<open>bins + 1\<close> equally spaced edges from \<open>min_val\<close> to \<open>max_val\<close> (a range of width 0 is widened
  by one half on each side, a reversed range is refused), values outside the range are
  dropped, every bucket is closed on the left and open on the right except the last,
  which is closed on both sides. Without weights every value counts 1.
\<close>

definition outer_edges :: "real \<Rightarrow> real \<Rightarrow> real \<times> real" where
  "outer_edges min_val max_val =
     (if min_val = max_val then (min_val - 1 / 2, max_val + 1 / 2) else (min_val, max_val))"

definition linspace :: "real \<Rightarrow> real \<Rightarrow> nat \<Rightarrow> real list" where
  "linspace first_edge last_edge bins =
     map (\<lambda>i. first_edge + real i * (last_edge - first_edge) / real bins) [0..<bins + 1]"

definition bucket_of :: "real \<Rightarrow> real \<Rightarrow> nat \<Rightarrow> real \<Rightarrow> nat" where
  "bucket_of first_edge last_edge bins x =
     (let k = nat \<lfloor>(x - first_edge) * real bins / (last_edge - first_edge)\<rfloor>
      in if k = bins then bins - 1 else k)"

definition bucket_weights :: "real \<Rightarrow> real \<Rightarrow> nat \<Rightarrow> (real \<times> real) list \<Rightarrow> real list" where
  "bucket_weights first_edge last_edge bins xws =
     (let kept = filter (\<lambda>(x, w). first_edge \<le> x \<and> x \<le> last_edge) xws
      in map (\<lambda>i. sum_list (map snd (filter (\<lambda>(x, w). bucket_of first_edge last_edge bins x = i) kept)))
           [0..<bins])"

definition histogram ::
  "real list \<Rightarrow> nat \<Rightarrow> real \<Rightarrow> real \<Rightarrow> real list option \<Rightarrow> error + (real list \<times> real list)" where
  "histogram a bins min_val max_val weights =
     (if bins = 0 then Inl ValueError
      else if max_val < min_val then Inl ValueError
      else if (case weights of None \<Rightarrow> False | Some w \<Rightarrow> length w \<noteq> length a) then Inl ValueError
      else
        let (first_edge, last_edge) = outer_edges min_val max_val;
            ws = (case weights of None \<Rightarrow> replicate (length a) 1 | Some w \<Rightarrow> w)
        in Inr (bucket_weights first_edge last_edge bins (zip a ws),
                linspace first_edge last_edge bins))"

text \<open>\<^verbatim>\<open>np.clip(w + noise, 0, None)\<close>; the noise draw is a function of the index.\<close>

definition add_noise_and_clip :: "(nat \<Rightarrow> real) \<Rightarrow> real list \<Rightarrow> real list" where
  "add_noise_and_clip noise ws = map (\<lambda>i. max 0 (ws ! i + noise i)) [0..<length ws]"

text \<open>\<^verbatim>\<open>len(col_data) if sample_weight is None else np.sum(sample_weight)\<close>\<close>

definition sample_weight_total :: "'a list \<Rightarrow> real list option \<Rightarrow> real" where
  "sample_weight_total col_data sample_weight =
     (case sample_weight of None \<Rightarrow> real (length col_data) | Some w \<Rightarrow> sum_list w)"

subsection \<open>\<^verbatim>\<open>DPUtils.private_numeric_binning\<close>\<close>

text \<open>
  The greedy loop over \<^verbatim>\<open>enumerate(uniform_edges[1:])\<close>; its state is
  \<^verbatim>\<open>(bin_weights, bin_cuts, curr_weight)\<close>.
\<close>

fun greedy_collapse ::
  "real \<Rightarrow> (real \<times> real) list \<Rightarrow> real list \<times> real list \<times> real \<Rightarrow> real list \<times> real list \<times> real" where
  "greedy_collapse target_weight [] st = st"
| "greedy_collapse target_weight ((w, right_edge) # rest) (bin_weights, bin_cuts, curr_weight) =
     (let curr_weight = curr_weight + w in
      if curr_weight \<ge> target_weight
      then greedy_collapse target_weight rest
             (bin_weights @ [curr_weight], bin_cuts @ [right_edge], 0)
      else greedy_collapse target_weight rest (bin_weights, bin_cuts, curr_weight))"

text \<open>
  The random draw \<^verbatim>\<open>np.random.normal(0, noise_scale, size)\<close> is the argument \<open>noise\<close>.
  The result is \<^verbatim>\<open>(bin_cuts, bin_weights)\<close>.
\<close>

definition private_numeric_binning ::
  "real list \<Rightarrow> real list option \<Rightarrow> (nat \<Rightarrow> real) \<Rightarrow> nat \<Rightarrow> real \<Rightarrow> real
     \<Rightarrow> error + (real list \<times> real list)" where
  "private_numeric_binning col_data sample_weight noise max_bins min_val max_val =
     (case histogram col_data (max_bins * 2) min_val max_val sample_weight of
        Inl e \<Rightarrow> Inl e
      | Inr (uniform_weights, uniform_edges) \<Rightarrow>
          let noisy_weights = add_noise_and_clip noise uniform_weights;
              target_weight = sample_weight_total col_data sample_weight / real max_bins;
              (bin_weights, bin_cuts, curr_weight) =
                 greedy_collapse target_weight (zip noisy_weights (tl uniform_edges))
                   ([0], [hd uniform_edges], 0)
          in if length bin_weights = 1 then Inr ([], bin_weights @ [target_weight])
             else Inr (butlast (tl bin_cuts), butlast bin_weights @ [last bin_weights + curr_weight]))"

text \<open>
  The reference the greedy collapse is compared with, written from the specification's words
  (``a deterministic threshold-crossing scan''): walk the cumulative bucket weights from left
  to right and put a boundary at the right edge of the first bucket at which the cumulative
  weight has grown by the threshold or more since the previous boundary. As in the routine,
  the bins end at these boundaries except the last bin, which runs to the end of the range,
  so the last boundary is not a cut.
\<close>

fun cumsum :: "real \<Rightarrow> real list \<Rightarrow> real list" where
  "cumsum acc [] = []"
| "cumsum acc (w # ws) = (acc + w) # cumsum (acc + w) ws"

fun threshold_crossings :: "real \<Rightarrow> real \<Rightarrow> (real \<times> real) list \<Rightarrow> real list" where
  "threshold_crossings threshold base [] = []"
| "threshold_crossings threshold base ((s, right_edge) # rest) =
     (if s - base \<ge> threshold then right_edge # threshold_crossings threshold s rest
      else threshold_crossings threshold base rest)"

definition threshold_scan_cuts :: "real \<Rightarrow> real list \<Rightarrow> real list \<Rightarrow> real list" where
  "threshold_scan_cuts threshold ws edges =
     butlast (threshold_crossings threshold 0 (zip (cumsum 0 ws) (tl edges)))"

subsection \<open>\<^verbatim>\<open>DPUtils.private_categorical_binning\<close>\<close>

text \<open>\<^verbatim>\<open>np.unique\<close>: the sorted distinct values.\<close>

definition unique :: "string list \<Rightarrow> string list" where
  "unique col_data = sort (remdups col_data)"

text \<open>
  \<^verbatim>\<open>np.bincount(uniq_idxs, weights=sample_weight, minlength=len(uniq_vals))\<close>: the total
  weight of the rows that hold each distinct value.
\<close>

definition bincount :: "string list \<Rightarrow> real list \<Rightarrow> string list \<Rightarrow> real list" where
  "bincount col_data ws uniq_vals =
     map (\<lambda>u. sum_list (map snd (filter (\<lambda>(c, w). c = u) (zip col_data ws)))) uniq_vals"

text \<open>\<^verbatim>\<open>np.argmin\<close>: the first position of the least element.\<close>

fun argmin :: "real list \<Rightarrow> nat" where
  "argmin [] = 0"
| "argmin [x] = 0"
| "argmin (x # y # ys) = (let k = argmin (y # ys) in if x \<le> (y # ys) ! k then 0 else Suc k)"

definition delete_at :: "nat \<Rightarrow> 'a list \<Rightarrow> 'a list" where
  "delete_at k xs = take k xs @ drop (Suc k) xs"

text \<open>
  The part of the routine after the noisy weights and the target are known: collapse the
  small bins into \<^verbatim>\<open>DPOther\<close>, and let \<^verbatim>\<open>DPOther\<close> absorb one more bin if it is still too
  small.
\<close>

definition collapse_small_bins ::
  "string list \<Rightarrow> real list \<Rightarrow> real \<Rightarrow> string list \<times> real list" where
  "collapse_small_bins uniq_vals weights target_weight =
     (let small_bins = filter (\<lambda>i. weights ! i < target_weight) [0..<length weights]
      in if length small_bins > 0 then
           let other_weight = sum_list (map (\<lambda>i. weights ! i) small_bins);
               mask = filter (\<lambda>i. i \<notin> set small_bins) [0..<length weights];
               uniq_vals = map (\<lambda>i. uniq_vals ! i) mask @ [''DPOther''];
               weights = map (\<lambda>i. weights ! i) mask @ [other_weight]
           in if other_weight < target_weight then
                if length weights = 1 then (uniq_vals, [target_weight])
                else
                  let collapse_bin = argmin (butlast weights);
                      weights = butlast weights @ [last weights + weights ! collapse_bin]
                  in (delete_at collapse_bin uniq_vals, delete_at collapse_bin weights)
              else (uniq_vals, weights)
         else (uniq_vals, weights))"

text \<open>
  The random draw \<^verbatim>\<open>np.random.normal(0, noise_scale, size)\<close> is the argument \<open>noise\<close>.
  The result is \<^verbatim>\<open>(uniq_vals, weights)\<close>. \<^verbatim>\<open>np.bincount\<close> refuses weights of another length
  than the column; a division by \<^verbatim>\<open>max_bins = 0\<close> is an error in the model.
\<close>

definition private_categorical_binning ::
  "string list \<Rightarrow> real list option \<Rightarrow> (nat \<Rightarrow> real) \<Rightarrow> nat \<Rightarrow> error + (string list \<times> real list)" where
  "private_categorical_binning col_data sample_weight noise max_bins =
     (if (case sample_weight of None \<Rightarrow> False | Some w \<Rightarrow> length w \<noteq> length col_data)
      then Inl ValueError
      else if max_bins = 0 then Inl ZeroDivisionError
      else
        let uniq_vals = unique col_data;
            ws = (case sample_weight of None \<Rightarrow> replicate (length col_data) 1 | Some w \<Rightarrow> w);
            weights = add_noise_and_clip noise (bincount col_data ws uniq_vals);
            target_weight = sample_weight_total col_data sample_weight / real max_bins
        in Inr (collapse_small_bins uniq_vals weights target_weight))"

subsection \<open>Tensors\<close>

text \<open>
  A numpy array of floats: its shape and its cells in row-major (C) order, the order in
  which the source itself enumerates cells (the last axis varies fastest). Every numpy
  array has as many cells as its shape prescribes.
\<close>

record tensor =
  shape :: "nat list"
  flat :: "real list"

definition wf_tensor :: "tensor \<Rightarrow> bool" where
  "wf_tensor t \<longleftrightarrow> length (flat t) = prod_list (shape t)"

text \<open>The position along axis \<open>d\<close> of the cell with flat index \<open>i\<close>.\<close>

definition coord :: "nat list \<Rightarrow> nat \<Rightarrow> nat \<Rightarrow> nat" where
  "coord shp d i = (i div prod_list (drop (Suc d) shp)) mod (shp ! d)"

text \<open>\<^verbatim>\<open>np.sum(weights[:, ..., j, ..., :])\<close> with \<open>j\<close> on axis \<open>d\<close>.\<close>

definition slice_sum :: "tensor \<Rightarrow> nat \<Rightarrow> nat \<Rightarrow> real" where
  "slice_sum w d j =
     sum_list (map (\<lambda>i. flat w ! i) (filter (\<lambda>i. coord (shape w) d i = j) [0..<length (flat w)]))"

text \<open>
  \<^verbatim>\<open>np.average(a, weights=w)\<close> over all cells: numpy refuses weights of another shape
  (\<^verbatim>\<open>TypeError\<close>) and weights that sum to zero (\<^verbatim>\<open>ZeroDivisionError\<close>).
\<close>

definition weighted_mean :: "tensor \<Rightarrow> tensor \<Rightarrow> real" where
  "weighted_mean a w = sum_list (map2 (*) (flat a) (flat w)) / sum_list (flat w)"

definition average :: "tensor \<Rightarrow> tensor \<Rightarrow> error + real" where
  "average a w =
     (if shape a \<noteq> shape w then Inl TypeError
      else if sum_list (flat w) = 0 then Inl ZeroDivisionError
      else Inr (weighted_mean a w))"

text \<open>\<^verbatim>\<open>tensor - score_mean\<close>\<close>

definition shift :: "tensor \<Rightarrow> real \<Rightarrow> tensor" where
  "shift t c = t\<lparr>flat := map (\<lambda>x. x - c) (flat t)\<rparr>"

text \<open>
  \<^verbatim>\<open>np.average(score_tensors, axis=0)\<close>: the cell-wise mean of the bags' tensors of one term.
  numpy cannot stack tensors of different shapes; the mean of no bags at all is NaN in
  numpy and an error here.
\<close>

definition cellwise_mean :: "tensor list \<Rightarrow> tensor" where
  "cellwise_mean bags =
     \<lparr>shape = shape (hd bags),
      flat = map (\<lambda>i. sum_list (map (\<lambda>b. flat b ! i) bags) / real (length bags))
               [0..<length (flat (hd bags))]\<rparr>"

definition bag_average :: "tensor list \<Rightarrow> error + tensor" where
  "bag_average bags =
     (if bags = [] then Inl ZeroDivisionError
      else if \<exists>b \<in> set bags. shape b \<noteq> shape (hd bags) then Inl ValueError
      else Inr (cellwise_mean bags))"

subsection \<open>\<^verbatim>\<open>_zero_tensor\<close> and \<^verbatim>\<open>_restore_missing_value_zeros2\<close>\<close>

text \<open>
  \<^verbatim>\<open>_zero_tensor\<close> assigns 0 to the slice at index 0 of every axis flagged in \<open>zero_low\<close> and
  to the slice at index -1 of every axis flagged in \<open>zero_high\<close>. All assignments write 0, so
  their order does not matter: a cell ends as 0 exactly when it lies in one of the slices.
\<close>

definition in_zeroed_slice :: "nat list \<Rightarrow> bool list \<Rightarrow> bool list \<Rightarrow> nat \<Rightarrow> bool" where
  "in_zeroed_slice shp zero_low zero_high i \<longleftrightarrow>
     (\<exists>d \<in> set [0..<length zero_low]. zero_low ! d \<and> coord shp d i = 0)
     \<or> (\<exists>d \<in> set [0..<length zero_high]. zero_high ! d \<and> coord shp d i = shp ! d - 1)"

definition zero_tensor :: "tensor \<Rightarrow> bool list \<Rightarrow> bool list \<Rightarrow> tensor" where
  "zero_tensor t zero_low zero_high =
     t\<lparr>flat := map (\<lambda>i. if in_zeroed_slice (shape t) zero_low zero_high i then 0 else flat t ! i)
                  [0..<length (flat t)]\<rparr>"

text \<open>
  One iteration of the loop of \<^verbatim>\<open>_restore_missing_value_zeros2\<close>. Indexing an axis of
  length 0 at 0 or -1 raises \<^verbatim>\<open>IndexError\<close>, as does zeroing a slice on an axis the tensor
  does not have.
\<close>

definition restore_term :: "tensor \<Rightarrow> tensor \<Rightarrow> error + tensor" where
  "restore_term t weights =
     (let n_dimensions = length (shape weights) in
      if 0 \<in> set (shape weights) then Inl IndexError
      else
        let lower = map (\<lambda>d. slice_sum weights d 0 = 0) [0..<n_dimensions];
            higher = map (\<lambda>d. slice_sum weights d (shape weights ! d - 1) = 0) [0..<n_dimensions]
        in if \<exists>d \<in> set [0..<n_dimensions].
                (lower ! d \<or> higher ! d) \<and> (length (shape t) \<le> d \<or> shape t ! d = 0)
           then Inl IndexError
           else Inr (zero_tensor t lower higher))"

text \<open>The loop over \<^verbatim>\<open>zip(tensors, term_bin_weights)\<close>.\<close>

fun restore_missing_value_zeros2 :: "tensor list \<Rightarrow> tensor list \<Rightarrow> error + tensor list" where
  "restore_missing_value_zeros2 (t # ts) (w # ws) =
     (case restore_term t w of
        Inl e \<Rightarrow> Inl e
      | Inr t' \<Rightarrow>
          (case restore_missing_value_zeros2 ts ws of
             Inl e \<Rightarrow> Inl e
           | Inr ts' \<Rightarrow> Inr (t' # ts')))"
| "restore_missing_value_zeros2 _ _ = Inr []"

subsection \<open>Centering: the post-processing of \<^verbatim>\<open>BaseEBM.fit\<close> and \<^verbatim>\<open>_process_terms\<close>\<close>

text \<open>
  The branch for at most two classes (regression and binary classification): each term's
  weighted mean is subtracted from the term and added to the intercept. The loop runs over
  the indices of the terms, so a missing weight tensor is an \<^verbatim>\<open>IndexError\<close>. (For more than
  two classes the source calls \<^verbatim>\<open>multiclass_postprocess2\<close> of another module instead.)
\<close>

fun center_terms :: "tensor list \<Rightarrow> tensor list \<Rightarrow> real \<Rightarrow> error + (tensor list \<times> real)" where
  "center_terms [] bin_weights intercept = Inr ([], intercept)"
| "center_terms (t # ts) [] intercept = Inl IndexError"
| "center_terms (t # ts) (w # ws) intercept =
     (case average t w of
        Inl e \<Rightarrow> Inl e
      | Inr score_mean \<Rightarrow>
          (case center_terms ts ws (intercept + score_mean) of
             Inl e \<Rightarrow> Inl e
           | Inr (ts', intercept') \<Rightarrow> Inr (shift t score_mean # ts', intercept')))"

fun bag_averages :: "tensor list list \<Rightarrow> error + tensor list" where
  "bag_averages [] = Inr []"
| "bag_averages (bags # rest) =
     (case bag_average bags of
        Inl e \<Rightarrow> Inl e
      | Inr a \<Rightarrow> (case bag_averages rest of Inl e \<Rightarrow> Inl e | Inr as \<Rightarrow> Inr (a # as)))"

text \<open>
  Lines 1006 to 1030 of \<^verbatim>\<open>BaseEBM.fit\<close> for at most two classes: average the bags of every
  term, center, restore the zeros. The intercept starts at 0. The result is
  \<^verbatim>\<open>(additive_terms, intercept)\<close>; the standard deviations go through the same restoration
  and influence neither and are left out.
\<close>

definition fit_postprocess :: "tensor list list \<Rightarrow> tensor list \<Rightarrow> error + (tensor list \<times> real)" where
  "fit_postprocess bagged_additive_terms bin_weights =
     (case bag_averages bagged_additive_terms of
        Inl e \<Rightarrow> Inl e
      | Inr additive_terms \<Rightarrow>
          (case center_terms additive_terms bin_weights 0 of
             Inl e \<Rightarrow> Inl e
           | Inr (additive_terms, intercept) \<Rightarrow>
               (case restore_missing_value_zeros2 additive_terms bin_weights of
                  Inl e \<Rightarrow> Inl e
                | Inr additive_terms \<Rightarrow> Inr (additive_terms, intercept))))"

section \<open>Verified properties\<close>

subsection \<open>Seed normalisation\<close>

text \<open>
  Claim C6. \<^verbatim>\<open>normalize_initial_random_seed\<close> returns its argument unchanged on every
  integer of \<open>[-2147483646, 2147483646]\<close>; at or above \<open>2147483647\<close> it returns the
  argument modulo \<open>2147483647\<close>; at or below \<open>-2147483647\<close> it negates, reduces modulo
  \<open>2147483647\<close> and negates again. In particular \<open>2147483647\<close> goes to \<open>0\<close> and
  \<open>-2147483648\<close> to \<open>-1\<close>.
\<close>

theorem normalize_initial_random_seed_cases:
  "(- 2147483646 \<le> s \<and> s \<le> 2147483646 \<longrightarrow> normalize_initial_random_seed s = s)
   \<and> (2147483647 \<le> s \<longrightarrow> normalize_initial_random_seed s = s mod 2147483647)
   \<and> (s \<le> - 2147483647 \<longrightarrow> normalize_initial_random_seed s = - ((- s) mod 2147483647))
   \<and> normalize_initial_random_seed 2147483647 = 0
   \<and> normalize_initial_random_seed (- 2147483648) = - 1"
  by (simp add: normalize_initial_random_seed_def)

theorem normalize_initial_random_seed_cases_witness:
  "normalize_initial_random_seed 42 = 42
   \<and> normalize_initial_random_seed 4294967296 = 2
   \<and> normalize_initial_random_seed (- 4294967296) = - 2"
  using normalize_initial_random_seed_cases [of 42]
    normalize_initial_random_seed_cases [of 4294967296]
    normalize_initial_random_seed_cases [of "- 4294967296"]
  by simp

subsection \<open>Early stopping\<close>

lemma boost_rounds_length_le: "length (boost_rounds esr tol st rs) \<le> length rs"
  by (induction rs arbitrary: st) (auto simp: Let_def)

lemma boost_rounds_disabled: "esr < 0 \<Longrightarrow> length (boost_rounds esr tol st rs) = length rs"
  by (induction rs arbitrary: st) (auto simp: Let_def early_stop_def)

lemma boost_rounds_nonempty: "rs \<noteq> [] \<Longrightarrow> boost_rounds esr tol st rs \<noteq> []"
  by (cases rs) (auto simp: Let_def)

lemma boost_rounds_step:
  "k < length (boost_rounds esr tol st rs) \<Longrightarrow>
   boost_rounds esr tol st rs ! k = boost_round tol (entry_state st (boost_rounds esr tol st rs) k) (rs ! k)"
proof (induction rs arbitrary: st k)
  case Nil
  then show ?case by simp
next
  case (Cons r rs)
  show ?case
  proof (cases k)
    case 0
    then show ?thesis by (simp add: entry_state_def Let_def)
  next
    case (Suc j)
    with Cons.prems have nb: "\<not> early_stop esr (boost_round tol st r)"
      by (auto simp: Let_def split: if_splits)
    with Cons.prems Suc have "j < length (boost_rounds esr tol (boost_round tol st r) rs)"
      by (simp add: Let_def)
    from Cons.IH[OF this] nb Suc show ?thesis
      by (cases j) (simp_all add: Let_def entry_state_def)
  qed
qed

lemma boost_rounds_continue:
  "Suc k < length (boost_rounds esr tol st rs) \<Longrightarrow>
   \<not> early_stop esr (boost_rounds esr tol st rs ! k)"
proof (induction rs arbitrary: st k)
  case Nil
  then show ?case by simp
next
  case (Cons r rs)
  from Cons.prems have nb: "\<not> early_stop esr (boost_round tol st r)"
    by (auto simp: Let_def split: if_splits)
  show ?case
  proof (cases k)
    case 0
    with nb show ?thesis by (simp add: Let_def)
  next
    case (Suc j)
    with Cons.prems nb have "Suc j < length (boost_rounds esr tol (boost_round tol st r) rs)"
      by (simp add: Let_def)
    from Cons.IH[OF this] nb Suc show ?thesis by (simp add: Let_def)
  qed
qed

lemma boost_rounds_break:
  "Suc k = length (boost_rounds esr tol st rs) \<Longrightarrow> Suc k < length rs \<Longrightarrow>
   early_stop esr (boost_rounds esr tol st rs ! k)"
proof (induction rs arbitrary: st k)
  case Nil
  then show ?case by simp
next
  case (Cons r rs)
  show ?case
  proof (cases "early_stop esr (boost_round tol st r)")
    case True
    with Cons.prems show ?thesis by (simp add: Let_def)
  next
    case nb: False
    with Cons.prems obtain j where k: "k = Suc j"
      using boost_rounds_nonempty[of rs esr tol "boost_round tol st r"]
      by (cases k) (auto simp: Let_def)
    with Cons.prems nb have "Suc j = length (boost_rounds esr tol (boost_round tol st r) rs)" "Suc j < length rs"
      by (simp_all add: Let_def)
    from Cons.IH[OF this] nb k show ?thesis by (simp add: Let_def)
  qed
qed


lemma boost_round_simps:
  "min_metric (boost_round tol st ms) = apply_term_updates (min_metric st) ms"
  "bp_metric (boost_round tol st ms) =
     (if no_change_run_length st = 0 then apply_term_updates (min_metric st) ms else bp_metric st)"
  "no_change_run_length (boost_round tol st ms) =
     (if improves tol (min_metric (boost_round tol st ms)) (bp_metric (boost_round tol st ms)) then 0
      else no_change_run_length st + 1)"
  by (simp_all add: boost_round_def Let_def)

lemma boost_rounds_step_fields:
  assumes "k < length (boost_rounds esr tol st rs)"
  shows "bp_metric (boost_rounds esr tol st rs ! k) =
           (if no_change_run_length (entry_state st (boost_rounds esr tol st rs) k) = 0
            then min_metric (boost_rounds esr tol st rs ! k)
            else bp_metric (entry_state st (boost_rounds esr tol st rs) k))"
    and "no_change_run_length (boost_rounds esr tol st rs ! k) =
           (if improves tol (min_metric (boost_rounds esr tol st rs ! k))
                 (bp_metric (boost_rounds esr tol st rs ! k)) then 0
            else no_change_run_length (entry_state st (boost_rounds esr tol st rs) k) + 1)"
proof -
  let ?tr = "boost_rounds esr tol st rs"
  have step: "?tr ! k = boost_round tol (entry_state st ?tr k) (rs ! k)"
    using boost_rounds_step[OF assms] .
  show "bp_metric (?tr ! k) =
           (if no_change_run_length (entry_state st ?tr k) = 0
            then min_metric (?tr ! k) else bp_metric (entry_state st ?tr k))"
    using boost_round_simps(1,2)[of tol "entry_state st ?tr k" "rs ! k"]
    unfolding step[symmetric] by simp
  show "no_change_run_length (?tr ! k) =
           (if improves tol (min_metric (?tr ! k)) (bp_metric (?tr ! k)) then 0
            else no_change_run_length (entry_state st ?tr k) + 1)"
    using boost_round_simps(3)[of tol "entry_state st ?tr k" "rs ! k"]
    unfolding step[symmetric] .
qed

lemma boost_rounds_streak:
  assumes "i \<le> k" and "k < length (boost_rounds esr tol st rs)"
    and "no_change_run_length (entry_state st (boost_rounds esr tol st rs) i) = 0"
    and "\<forall>k'. i \<le> k' \<and> k' \<le> k \<longrightarrow>
           \<not> improves tol (min_metric (boost_rounds esr tol st rs ! k'))
                (min_metric (boost_rounds esr tol st rs ! i))"
  shows "bp_metric (boost_rounds esr tol st rs ! k) = min_metric (boost_rounds esr tol st rs ! i)
         \<and> no_change_run_length (boost_rounds esr tol st rs ! k) = k - i + 1"
  using assms
proof (induction k)
  case 0
  then have i: "i = 0" by simp
  from 0 i boost_rounds_step_fields[of 0 esr tol st rs] show ?case
    by simp
next
  case (Suc k)
  let ?tr = "boost_rounds esr tol st rs"
  note fields = boost_rounds_step_fields[OF Suc.prems(2)]
  show ?case
  proof (cases "i = Suc k")
    case True
    have bp: "bp_metric (?tr ! Suc k) = min_metric (?tr ! Suc k)"
      using Suc.prems(3) True fields(1) by simp
    have "\<not> improves tol (min_metric (?tr ! Suc k)) (min_metric (?tr ! Suc k))"
      using Suc.prems(4) True by simp
    then have "no_change_run_length (?tr ! Suc k) = 1"
      using Suc.prems(3) True bp fields(2) by simp
    with bp True show ?thesis by simp
  next
    case False
    with Suc.prems have ik: "i \<le> k" and k: "k < length ?tr" by simp_all
    have IH: "bp_metric (?tr ! k) = min_metric (?tr ! i) \<and> no_change_run_length (?tr ! k) = k - i + 1"
      using Suc.IH[OF ik k Suc.prems(3)] Suc.prems(4) by simp
    have es: "entry_state st ?tr (Suc k) = ?tr ! k" by (simp add: entry_state_def)
    have bp: "bp_metric (?tr ! Suc k) = min_metric (?tr ! i)"
      using IH fields(1) es by simp
    have "\<not> improves tol (min_metric (?tr ! Suc k)) (min_metric (?tr ! i))"
      using Suc.prems(4) ik by simp
    then have "no_change_run_length (?tr ! Suc k) = no_change_run_length (?tr ! k) + 1"
      using bp fields(2) es by simp
    with IH bp ik show ?thesis by simp
  qed
qed

lemma boost_rounds_within:
  assumes "0 \<le> esr" and "i \<le> j" and "j < length (boost_rounds esr tol st rs)"
    and "no_change_run_length (entry_state st (boost_rounds esr tol st rs) i) = 0"
    and "\<forall>k. i \<le> k \<and> k \<le> j \<longrightarrow>
           \<not> improves tol (min_metric (boost_rounds esr tol st rs ! k))
                (min_metric (boost_rounds esr tol st rs ! i))"
  shows "int (j - i) < max 1 esr"
proof (cases "i = j")
  case True
  then show ?thesis by simp
next
  case False
  let ?tr = "boost_rounds esr tol st rs"
  from False assms obtain j' where j: "j = Suc j'" and ij: "i \<le> j'" and lt: "j' < length ?tr"
    by (cases j) auto
  have "no_change_run_length (?tr ! j') = j' - i + 1"
    using boost_rounds_streak[OF ij lt assms(4)] assms(5) j by simp
  moreover have "\<not> early_stop esr (?tr ! j')"
    using boost_rounds_continue[of j' esr tol st rs] assms(3) j by simp
  ultimately show ?thesis using assms(1) j ij by (simp add: early_stop_def)
qed

text \<open>
  Claim C7. With \<^verbatim>\<open>early_stopping_rounds < 0\<close> the loop runs all \<^verbatim>\<open>max_rounds\<close> rounds. With
  \<^verbatim>\<open>early_stopping_rounds >= 0\<close>: let a streak start in round \<open>i\<close> (the run-length counter is 0
  when the round starts, so the round records its minimum metric as the streak's reference),
  and let no round from \<open>i\<close> to \<open>j\<close> improve, where a round improves when the running minimum
  plus the tolerance is below the reference. Then round \<open>j\<close> is fewer than
  \<open>max 1 early_stopping_rounds\<close> rounds after round \<open>i\<close>: the loop has stopped by then. (The
  stopping test is at the end of a round, so one round runs even when
  \<^verbatim>\<open>early_stopping_rounds = 0\<close>.)
\<close>

theorem early_stopping_termination:
  "(early_stopping_rounds < 0 \<longrightarrow>
      length (cyclic_gradient_boost early_stopping_rounds tol max_rounds metrics) = nat max_rounds)
   \<and> (0 \<le> early_stopping_rounds \<longrightarrow>
        (\<forall>i j. i \<le> j
           \<and> j < length (cyclic_gradient_boost early_stopping_rounds tol max_rounds metrics)
           \<and> no_change_run_length (entry_state boost_init
                 (cyclic_gradient_boost early_stopping_rounds tol max_rounds metrics) i) = 0
           \<and> (\<forall>k. i \<le> k \<and> k \<le> j \<longrightarrow>
                 \<not> improves tol
                     (min_metric (cyclic_gradient_boost early_stopping_rounds tol max_rounds metrics ! k))
                     (min_metric (cyclic_gradient_boost early_stopping_rounds tol max_rounds metrics ! i)))
           \<longrightarrow> int (j - i) < max 1 early_stopping_rounds))"
proof (intro conjI impI allI)
  assume "early_stopping_rounds < 0"
  then show "length (cyclic_gradient_boost early_stopping_rounds tol max_rounds metrics) = nat max_rounds"
    by (simp add: cyclic_gradient_boost_def boost_rounds_disabled)
next
  fix i j
  assume "0 \<le> early_stopping_rounds"
    and "i \<le> j
           \<and> j < length (cyclic_gradient_boost early_stopping_rounds tol max_rounds metrics)
           \<and> no_change_run_length (entry_state boost_init
                 (cyclic_gradient_boost early_stopping_rounds tol max_rounds metrics) i) = 0
           \<and> (\<forall>k. i \<le> k \<and> k \<le> j \<longrightarrow>
                 \<not> improves tol
                     (min_metric (cyclic_gradient_boost early_stopping_rounds tol max_rounds metrics ! k))
                     (min_metric (cyclic_gradient_boost early_stopping_rounds tol max_rounds metrics ! i)))"
  then show "int (j - i) < max 1 early_stopping_rounds"
    unfolding cyclic_gradient_boost_def by (intro boost_rounds_within) blast+
qed

theorem early_stopping_termination_witness:
  "length (cyclic_gradient_boost (- 1) 0 3 (\<lambda>k. [1])) = 3
   \<and> (0::nat) \<le> 1 \<and> 1 < length (cyclic_gradient_boost 2 0 5 (\<lambda>k. [1]))
   \<and> no_change_run_length (entry_state boost_init (cyclic_gradient_boost 2 0 5 (\<lambda>k. [1])) 0) = 0
   \<and> \<not> improves 0 (min_metric (cyclic_gradient_boost 2 0 5 (\<lambda>k. [1]) ! 0))
          (min_metric (cyclic_gradient_boost 2 0 5 (\<lambda>k. [1]) ! 0))
   \<and> \<not> improves 0 (min_metric (cyclic_gradient_boost 2 0 5 (\<lambda>k. [1]) ! 1))
          (min_metric (cyclic_gradient_boost 2 0 5 (\<lambda>k. [1]) ! 0))
   \<and> int (1 - 0) < max 1 2"
proof -
  have tr: "cyclic_gradient_boost 2 0 5 (\<lambda>k. [1]) =
     [\<lparr>min_metric = Some 1, no_change_run_length = 1, bp_metric = Some 1\<rparr>,
      \<lparr>min_metric = Some 1, no_change_run_length = 2, bp_metric = Some 1\<rparr>]"
    by (simp add: cyclic_gradient_boost_def boost_init_def boost_round_def early_stop_def
        improves_def Let_def upt_rec)
  show ?thesis
    using early_stopping_termination [of "- 1" 0 3 "\<lambda>k. [1]"]
      early_stopping_termination [of 2 0 5 "\<lambda>k. [1]"]
    by (auto simp: tr entry_state_def boost_init_def improves_def le_Suc_eq)
qed

subsection \<open>Privacy parameters are validated first\<close>

text \<open>
  Claim C8. \<^verbatim>\<open>validate_eps_delta\<close> raises \<^verbatim>\<open>ValueError\<close> exactly when epsilon is unset or not
  positive, or delta is unset or not positive, and returns normally otherwise. In a
  differentially private \<^verbatim>\<open>BaseEBM.fit\<close> the check runs before the budget is split and
  before binning and noise calibration: with invalid parameters \<open>fit\<close> raises
  \<^verbatim>\<open>ValueError\<close> whatever the later stages would do, and the estimator is left as it was.
\<close>

theorem validate_eps_delta_fails_fast:
  "(validate_eps_delta eps dlt = Inl ValueError \<longleftrightarrow>
      eps = None \<or> (\<exists>e. eps = Some e \<and> e \<le> 0) \<or> dlt = None \<or> (\<exists>d. dlt = Some d \<and> d \<le> 0))
   \<and> (validate_eps_delta eps dlt \<noteq> Inl ValueError \<longrightarrow> validate_eps_delta eps dlt = Inr ())
   \<and> (is_private self \<and> validate_eps_delta (epsilon self) (delta self) = Inl ValueError
        \<longrightarrow> fit train self n_samples y sample_weight = (Inl ValueError, self))"
  by (auto simp: validate_eps_delta_def fit_def privacy_calculations_def Let_def
      split: option.splits if_splits)

theorem validate_eps_delta_fails_fast_witness:
  "validate_eps_delta (Some 1) None = Inl ValueError
   \<and> validate_eps_delta (Some 1) (Some (1 / 100000)) = Inr ()
   \<and> fit (\<lambda>b y w. Inr (0::nat))
         \<lparr>is_private = True, epsilon = Some 0, delta = Some 1, bin_budget_frac = 1 / 10,
            privacy_schema_target = None, fitted = None\<rparr> 2 [0, 1] None
       = (Inl ValueError,
          \<lparr>is_private = True, epsilon = Some 0, delta = Some 1, bin_budget_frac = 1 / 10,
            privacy_schema_target = None, fitted = None\<rparr>)"
  using validate_eps_delta_fails_fast [of "Some 1" None]
    validate_eps_delta_fails_fast [of "Some 1" "Some (1 / 100000)"]
    validate_eps_delta_fails_fast [of "Some 0" "Some 1"
      "\<lparr>is_private = True, epsilon = Some 0, delta = Some 1, bin_budget_frac = 1 / 10,
         privacy_schema_target = None, fitted = None\<rparr>" "\<lambda>b y w. Inr (0::nat)" 2 "[0, 1]" None]
  by (simp add: validate_eps_delta_def)

subsection \<open>Private numeric binning\<close>

lemma sum_list_nonneg_real: "(\<And>x. x \<in> set xs \<Longrightarrow> (0::real) \<le> x) \<Longrightarrow> 0 \<le> sum_list xs"
  by (induction xs) auto

lemma add_noise_and_clip_nonneg: "x \<in> set (add_noise_and_clip noise ws) \<Longrightarrow> 0 \<le> x"
  by (auto simp: add_noise_and_clip_def)

lemma length_add_noise_and_clip [simp]: "length (add_noise_and_clip noise ws) = length ws"
  by (simp add: add_noise_and_clip_def)

lemma greedy_collapse_sum:
  "greedy_collapse T zs (bw, bc, cw) = (bw', bc', cw') \<Longrightarrow>
   sum_list bw' + cw' = sum_list bw + cw + sum_list (map fst zs)"
proof (induction zs arbitrary: bw bc cw)
  case Nil
  then show ?case by simp
next
  case (Cons z zs)
  obtain w e where z: "z = (w, e)" by (cases z)
  show ?case
  proof (cases "cw + w \<ge> T")
    case True
    with Cons.prems z have "greedy_collapse T zs (bw @ [cw + w], bc @ [e], 0) = (bw', bc', cw')"
      by (simp add: Let_def)
    from Cons.IH[OF this] z show ?thesis by simp
  next
    case False
    with Cons.prems z have "greedy_collapse T zs (bw, bc, cw + w) = (bw', bc', cw')"
      by (simp add: Let_def)
    from Cons.IH[OF this] z show ?thesis by simp
  qed
qed

lemma greedy_collapse_nonneg:
  assumes "greedy_collapse T zs (bw, bc, cw) = (bw', bc', cw')"
    and "\<forall>z \<in> set zs. 0 \<le> fst z" and "\<forall>w \<in> set bw. 0 \<le> w" and "0 \<le> cw"
  shows "(\<forall>w \<in> set bw'. 0 \<le> w) \<and> 0 \<le> cw'"
  using assms
proof (induction zs arbitrary: bw bc cw)
  case Nil
  then show ?case by simp
next
  case (Cons z zs)
  obtain w e where z: "z = (w, e)" by (cases z)
  have w: "0 \<le> w" and zs: "\<forall>z \<in> set zs. 0 \<le> fst z"
    using Cons.prems(2) z by simp_all
  have cw: "0 \<le> cw + w" using w Cons.prems(4) by simp
  show ?case
  proof (cases "cw + w \<ge> T")
    case True
    with Cons.prems(1) z have g: "greedy_collapse T zs (bw @ [cw + w], bc @ [e], 0) = (bw', bc', cw')"
      by (simp add: Let_def)
    have a: "\<forall>x \<in> set (bw @ [cw + w]). 0 \<le> x" using Cons.prems(3) cw by simp
    have b: "(0::real) \<le> 0" by simp
    show ?thesis using Cons.IH[OF g zs a b] .
  next
    case False
    with Cons.prems(1) z have g: "greedy_collapse T zs (bw, bc, cw + w) = (bw', bc', cw')"
      by (simp add: Let_def)
    show ?thesis using Cons.IH[OF g zs Cons.prems(3) cw] .
  qed
qed

lemma greedy_collapse_prefix:
  "greedy_collapse T zs (bw, bc, cw) = (bw', bc', cw') \<Longrightarrow>
   \<exists>bs sel. bw' = bw @ bs \<and> bc' = bc @ sel \<and> length bs = length sel \<and> subseq sel (map snd zs)"
proof (induction zs arbitrary: bw bc cw)
  case Nil
  then show ?case by simp
next
  case (Cons z zs)
  obtain w e where z: "z = (w, e)" by (cases z)
  show ?case
  proof (cases "cw + w \<ge> T")
    case True
    with Cons.prems z have "greedy_collapse T zs (bw @ [cw + w], bc @ [e], 0) = (bw', bc', cw')"
      by (simp add: Let_def)
    from Cons.IH[OF this] obtain bs sel where
      "bw' = (bw @ [cw + w]) @ bs" "bc' = (bc @ [e]) @ sel" "length bs = length sel"
      "subseq sel (map snd zs)" by blast
    then have "bw' = bw @ ((cw + w) # bs) \<and> bc' = bc @ (e # sel)
        \<and> length ((cw + w) # bs) = length (e # sel) \<and> subseq (e # sel) (map snd (z # zs))"
      using z by simp
    then show ?thesis by blast
  next
    case False
    with Cons.prems z have "greedy_collapse T zs (bw, bc, cw + w) = (bw', bc', cw')"
      by (simp add: Let_def)
    from Cons.IH[OF this] obtain bs sel where
      "bw' = bw @ bs" "bc' = bc @ sel" "length bs = length sel" "subseq sel (map snd zs)" by blast
    then have "bw' = bw @ bs \<and> bc' = bc @ sel \<and> length bs = length sel
        \<and> subseq sel (map snd (z # zs))"
      using z by (simp add: list_emb_Cons)
    then show ?thesis by blast
  qed
qed

text \<open>No bin is closed exactly when the total stays below the target.\<close>

lemma greedy_collapse_none:
  assumes "greedy_collapse T zs (bw, bc, cw) = (bw', bc', cw')"
    and "\<forall>z \<in> set zs. 0 \<le> fst z" and "cw < T"
  shows "length bw' = length bw \<longleftrightarrow> cw + sum_list (map fst zs) < T"
  using assms
proof (induction zs arbitrary: bw bc cw)
  case Nil
  then show ?case by simp
next
  case (Cons z zs)
  obtain w e where z: "z = (w, e)" by (cases z)
  have zs: "\<forall>z \<in> set zs. 0 \<le> fst z"
    using Cons.prems(2) by simp
  show ?case
  proof (cases "cw + w \<ge> T")
    case True
    with Cons.prems(1) z have g: "greedy_collapse T zs (bw @ [cw + w], bc @ [e], 0) = (bw', bc', cw')"
      by (simp add: Let_def)
    from greedy_collapse_prefix[OF g] have "length bw' > length bw" by auto
    moreover have "0 \<le> sum_list (map fst zs)"
      using zs by (intro sum_list_nonneg_real) auto
    ultimately show ?thesis using True z by simp
  next
    case False
    with Cons.prems(1) z have g: "greedy_collapse T zs (bw, bc, cw + w) = (bw', bc', cw')"
      by (simp add: Let_def)
    from False have "cw + w < T" by simp
    from Cons.IH[OF g zs this] z show ?thesis by (simp add: add.assoc)
  qed
qed

lemma greedy_collapse_cuts:
  "greedy_collapse T (zip ws es) (bw, bc, cw) = (bw', bc', cw') \<Longrightarrow> acc - base = cw \<Longrightarrow>
   bc' = bc @ threshold_crossings T base (zip (cumsum acc ws) es)"
proof (induction ws arbitrary: es bw bc cw acc base)
  case Nil
  then show ?case by simp
next
  case (Cons w ws)
  show ?case
  proof (cases es)
    case Nil
    with Cons.prems show ?thesis by simp
  next
    case (Cons e es')
    show ?thesis
    proof (cases "cw + w \<ge> T")
      case True
      with Cons.prems Cons have "greedy_collapse T (zip ws es') (bw @ [cw + w], bc @ [e], 0) = (bw', bc', cw')"
        by (simp add: Let_def)
      from Cons.IH[OF this, of "acc + w" "acc + w"] True Cons.prems(2) Cons show ?thesis
        by (simp add: algebra_simps)
    next
      case False
      with Cons.prems Cons have "greedy_collapse T (zip ws es') (bw, bc, cw + w) = (bw', bc', cw')"
        by (simp add: Let_def)
      from Cons.IH[OF this, of "acc + w" base] False Cons.prems(2) Cons show ?thesis
        by (simp add: algebra_simps)
    qed
  qed
qed

lemma subseq_butlast: "subseq xs ys \<Longrightarrow> subseq (butlast xs) (butlast ys)"
proof (induction rule: list_emb.induct)
  case (list_emb_Nil ys)
  then show ?case by simp
next
  case (list_emb_Cons xs ys y)
  then show ?case by (cases ys) auto
next
  case (list_emb_Cons2 x y xs ys)
  then show ?case by (cases xs; cases ys) auto
qed

lemma subseq_sorted_wrt: "subseq xs ys \<Longrightarrow> sorted_wrt R ys \<Longrightarrow> sorted_wrt R xs"
proof (induction rule: list_emb.induct)
  case (list_emb_Nil ys)
  then show ?case by simp
next
  case (list_emb_Cons xs ys y)
  then show ?case by simp
next
  case (list_emb_Cons2 x y xs ys)
  then show ?case using list_emb_set[of "(=)" xs ys] by auto
qed

lemma sorted_wrt_map_upt:
  assumes "\<And>i j. i < j \<Longrightarrow> j < m \<Longrightarrow> (f i :: real) < f j"
  shows "sorted_wrt (<) (map f [0..<m])"
  unfolding sorted_wrt_map
  by (rule sorted_wrt_mono_rel[OF _ sorted_wrt_upt]) (use assms in auto)

lemma sorted_wrt_linspace:
  assumes "first_edge < last_edge" and "0 < bins"
  shows "sorted_wrt (<) (linspace first_edge last_edge bins)"
  unfolding linspace_def
proof (rule sorted_wrt_map_upt)
  fix i j :: nat
  assume "i < j"
  then have "real i * (last_edge - first_edge) < real j * (last_edge - first_edge)"
    using assms(1) by simp
  then have "real i * (last_edge - first_edge) / real bins < real j * (last_edge - first_edge) / real bins"
    using assms(2) by (simp add: divide_strict_right_mono)
  then show "first_edge + real i * (last_edge - first_edge) / real bins
      < first_edge + real j * (last_edge - first_edge) / real bins"
    by simp
qed

lemma histogram_edges:
  assumes "histogram a bins min_val max_val weights = Inr (counts, edges)"
  shows "length counts = bins" and "length edges = bins + 1" and "sorted_wrt (<) edges"
    and "0 < bins"
proof -
  from assms have b: "0 < bins" and le: "min_val \<le> max_val"
    by (auto simp: histogram_def split: if_splits)
  obtain first_edge last_edge where oe: "outer_edges min_val max_val = (first_edge, last_edge)"
    by (cases "outer_edges min_val max_val")
  with le have d: "first_edge < last_edge"
    by (auto simp: outer_edges_def split: if_splits)
  from assms oe have e: "edges = linspace first_edge last_edge bins"
    and c: "counts = bucket_weights first_edge last_edge bins
               (zip a (case weights of None \<Rightarrow> replicate (length a) 1 | Some w \<Rightarrow> w))"
    by (simp_all add: histogram_def split: if_splits)
  show "length counts = bins" by (simp add: c bucket_weights_def)
  show "length edges = bins + 1" by (simp add: e linspace_def)
  show "0 < bins" by (rule b)
  show "sorted_wrt (<) edges"
    unfolding e using d b by (rule sorted_wrt_linspace)
qed

lemma map_nth_upt: "map (\<lambda>i. f (xs ! i)) [0..<length xs] = map f xs"
  by (rule nth_equalityI) simp_all

lemma subseq_set: "subseq xs ys \<Longrightarrow> set xs \<subseteq> set ys"
  by (auto elim: list_emb_set)

lemma greedy_collapse_none_nonempty:
  assumes g: "greedy_collapse T zs (bw, bc, cw) = (bw', bc', cw')"
    and nn: "\<forall>z \<in> set zs. 0 \<le> fst z" and ne: "zs \<noteq> []" and cw: "0 \<le> cw"
  shows "length bw' = length bw \<longleftrightarrow> cw + sum_list (map fst zs) < T"
proof (cases "cw < T")
  case True
  then show ?thesis using greedy_collapse_none[OF g nn] by simp
next
  case False
  from ne obtain w e zs' where zs: "zs = (w, e) # zs'" by (cases zs) auto
  have w: "0 \<le> w" using nn zs by simp
  with False have ge: "cw + w \<ge> T" by simp
  with g zs have "greedy_collapse T zs' (bw @ [cw + w], bc @ [e], 0) = (bw', bc', cw')"
    by (simp add: Let_def)
  from greedy_collapse_prefix[OF this] have "length bw' > length bw" by auto
  moreover have "0 \<le> sum_list (map fst zs)"
    using nn by (intro sum_list_nonneg_real) auto
  ultimately show ?thesis using False cw by simp
qed

text \<open>What the routine returns, in terms of the final state of the greedy loop.\<close>

lemma private_numeric_binning_unfold:
  assumes h: "histogram col_data (max_bins * 2) min_val max_val sample_weight = Inr (uw, ue)"
    and g: "greedy_collapse (sample_weight_total col_data sample_weight / real max_bins)
              (zip (add_noise_and_clip noise uw) (tl ue)) ([0], [hd ue], 0) = (bw, bc, cw)"
  shows "private_numeric_binning col_data sample_weight noise max_bins min_val max_val =
     (if length bw = 1
      then Inr ([], bw @ [sample_weight_total col_data sample_weight / real max_bins])
      else Inr (butlast (tl bc), butlast bw @ [last bw + cw]))"
  by (simp add: private_numeric_binning_def h g Let_def)

lemma zip_noisy_edges:
  assumes h: "histogram col_data bins min_val max_val sample_weight = Inr (uw, ue)"
  shows "map fst (zip (add_noise_and_clip noise uw) (tl ue)) = add_noise_and_clip noise uw"
    and "map snd (zip (add_noise_and_clip noise uw) (tl ue)) = tl ue"
    and "zip (add_noise_and_clip noise uw) (tl ue) \<noteq> []"
proof -
  have l: "length (add_noise_and_clip noise uw) = length (tl ue)" and b: "0 < length uw"
    using histogram_edges[OF h] by simp_all
  show "map fst (zip (add_noise_and_clip noise uw) (tl ue)) = add_noise_and_clip noise uw"
    using l by simp
  show "map snd (zip (add_noise_and_clip noise uw) (tl ue)) = tl ue"
    using l by simp
  have "0 < length (add_noise_and_clip noise uw)" using b by simp
  then have n1: "add_noise_and_clip noise uw \<noteq> []" by blast
  have "0 < length (tl ue)" using l b by simp
  then have n2: "tl ue \<noteq> []" by blast
  show "zip (add_noise_and_clip noise uw) (tl ue) \<noteq> []"
    using n1 n2 by (cases "add_noise_and_clip noise uw"; cases "tl ue") simp_all
qed

lemma subseq_butlast_tl: "subseq (butlast (tl xs)) xs"
proof -
  have "subseq (butlast (tl xs)) (tl xs)"
    by (intro prefix_imp_subseq prefixeq_butlast)
  moreover have "subseq (tl xs) xs"
    by (intro suffix_imp_subseq suffix_tl)
  ultimately show ?thesis by (rule subseq_order.trans)
qed

text \<open>
  Claim C4, as the code has it. For every column, weights, bounds and noise draw for which
  \<^verbatim>\<open>private_numeric_binning\<close> returns: every returned bin weight is non-negative. When the
  noisy, clipped bucket weights add up to the target \<^verbatim>\<open>sample_weight_total / max_bins\<close> or
  more, the returned weights add up to the same total. When they add up to less, no bin was
  closed and the routine returns no cut and the weights \<open>[0, target]\<close>, whose sum is the target
  and not the noisy total. The returned cuts are those of the threshold-crossing scan over
  the noisy, clipped bucket weights; with the noise fixed to zero these are the bucket
  weights clipped at zero.
\<close>

theorem private_numeric_binning_weights:
  assumes h: "histogram col_data (max_bins * 2) min_val max_val sample_weight
                = Inr (uniform_weights, uniform_edges)"
    and r: "private_numeric_binning col_data sample_weight noise max_bins min_val max_val
                = Inr (bin_cuts, bin_weights)"
  shows "(\<forall>w \<in> set bin_weights. 0 \<le> w)
    \<and> (sample_weight_total col_data sample_weight / real max_bins
          \<le> sum_list (add_noise_and_clip noise uniform_weights)
        \<longrightarrow> sum_list bin_weights = sum_list (add_noise_and_clip noise uniform_weights))
    \<and> (sum_list (add_noise_and_clip noise uniform_weights)
          < sample_weight_total col_data sample_weight / real max_bins
        \<longrightarrow> bin_cuts = []
            \<and> bin_weights = [0, sample_weight_total col_data sample_weight / real max_bins])
    \<and> bin_cuts = threshold_scan_cuts (sample_weight_total col_data sample_weight / real max_bins)
          (add_noise_and_clip noise uniform_weights) uniform_edges
    \<and> ((\<forall>i. noise i = 0)
        \<longrightarrow> add_noise_and_clip noise uniform_weights = map (max 0) uniform_weights)"
proof -
  define T where "T = sample_weight_total col_data sample_weight / real max_bins"
  define noisy where "noisy = add_noise_and_clip noise uniform_weights"
  define zs where "zs = zip noisy (tl uniform_edges)"
  obtain bw bc cw where g: "greedy_collapse T zs ([0], [hd uniform_edges], 0) = (bw, bc, cw)"
    by (cases "greedy_collapse T zs ([0], [hd uniform_edges], 0)") auto
  have res: "(Inr (bin_cuts, bin_weights) :: error + real list \<times> real list) =
     (if length bw = 1 then Inr ([], bw @ [T]) else Inr (butlast (tl bc), butlast bw @ [last bw + cw]))"
    unfolding T_def
    by (simp only: r[symmetric] private_numeric_binning_unfold[OF h g[unfolded T_def zs_def noisy_def]])
  have fst_zs: "map fst zs = noisy" and snd_zs: "map snd zs = tl uniform_edges" and ne: "zs \<noteq> []"
    unfolding zs_def noisy_def using zip_noisy_edges[OF h] by simp_all
  have nn: "\<forall>z \<in> set zs. 0 \<le> fst z"
  proof
    fix z assume "z \<in> set zs"
    then have "fst z \<in> set (map fst zs)" by simp
    then show "0 \<le> fst z" unfolding fst_zs noisy_def by (rule add_noise_and_clip_nonneg)
  qed
  have sum: "sum_list bw + cw = sum_list noisy"
    using greedy_collapse_sum[OF g] fst_zs by simp
  have nonneg: "(\<forall>w \<in> set bw. 0 \<le> w) \<and> 0 \<le> cw"
    using greedy_collapse_nonneg[OF g nn] by simp
  have none: "length bw = 1 \<longleftrightarrow> sum_list noisy < T"
    using greedy_collapse_none_nonempty[OF g nn ne] fst_zs by simp
  obtain bs sel where pre: "bw = [0] @ bs" "bc = [hd uniform_edges] @ sel" "length bs = length sel"
    using greedy_collapse_prefix[OF g] by blast
  have cuts: "bc = [hd uniform_edges] @ threshold_crossings T 0 (zip (cumsum 0 noisy) (tl uniform_edges))"
    using greedy_collapse_cuts[OF g[unfolded zs_def], of 0 0] by simp
  have sum_nonneg: "0 \<le> sum_list noisy"
    unfolding noisy_def by (rule sum_list_nonneg_real) (rule add_noise_and_clip_nonneg)
  have scan: "bin_cuts = threshold_scan_cuts T noisy uniform_edges"
  proof (cases "length bw = 1")
    case True
    with pre have "sel = []" by simp
    with pre cuts have "threshold_crossings T 0 (zip (cumsum 0 noisy) (tl uniform_edges)) = []" by simp
    moreover from True res have "bin_cuts = []" by simp
    ultimately show ?thesis by (simp add: threshold_scan_cuts_def)
  next
    case False
    with res have "bin_cuts = butlast (tl bc)" by simp
    with cuts show ?thesis by (simp add: threshold_scan_cuts_def)
  qed
  have zero: "add_noise_and_clip noise uniform_weights = map (max 0) uniform_weights"
    if "\<forall>i. noise i = 0"
    using that by (simp add: add_noise_and_clip_def map_nth_upt)
  have c1: "\<forall>w \<in> set bin_weights. 0 \<le> w"
    and c2: "T \<le> sum_list noisy \<longrightarrow> sum_list bin_weights = sum_list noisy"
    and c3: "sum_list noisy < T \<longrightarrow> bin_cuts = [] \<and> bin_weights = [0, T]"
  proof -
    show "\<forall>w \<in> set bin_weights. 0 \<le> w"
    proof (cases "length bw = 1")
      case True
      with res have bwt: "bin_weights = bw @ [T]" by simp
      from True pre have "bw = [0]" by simp
      moreover from True none sum_nonneg have "0 \<le> T" by simp
      ultimately show ?thesis using bwt by simp
    next
      case False
      with res have w: "bin_weights = butlast bw @ [last bw + cw]" by simp
      from pre have bne: "bw \<noteq> []" by simp
      show ?thesis
      proof
        fix x assume "x \<in> set bin_weights"
        with w have "x \<in> set (butlast bw) \<or> x = last bw + cw" by auto
        then show "0 \<le> x"
        proof
          assume "x \<in> set (butlast bw)"
          then have "x \<in> set bw" by (rule in_set_butlastD)
          with nonneg show ?thesis by blast
        next
          assume x: "x = last bw + cw"
          have "last bw \<in> set bw" using bne by simp
          with nonneg have "0 \<le> last bw" by blast
          with nonneg x show ?thesis by simp
        qed
      qed
    qed
    show "T \<le> sum_list noisy \<longrightarrow> sum_list bin_weights = sum_list noisy"
    proof
      assume "T \<le> sum_list noisy"
      with none have "length bw \<noteq> 1" by simp
      with res have w: "bin_weights = butlast bw @ [last bw + cw]" by simp
      from pre have bne: "bw \<noteq> []" by simp
      have "sum_list bin_weights = sum_list (butlast bw @ [last bw]) + cw"
        unfolding w by simp
      also have "\<dots> = sum_list noisy" using bne sum by simp
      finally show "sum_list bin_weights = sum_list noisy" .
    qed
    show "sum_list noisy < T \<longrightarrow> bin_cuts = [] \<and> bin_weights = [0, T]"
    proof
      assume "sum_list noisy < T"
      with none have one: "length bw = 1" by simp
      with res have "bin_cuts = []" and "bin_weights = bw @ [T]" by simp_all
      moreover from one pre have "bw = [0]" by simp
      ultimately show "bin_cuts = [] \<and> bin_weights = [0, T]" by simp
    qed
  qed
  from c1 c2 c3 scan zero show ?thesis
    unfolding T_def noisy_def by blast
qed

theorem private_numeric_binning_weights_witness:
  "private_numeric_binning [1 / 10, 3 / 5] None (\<lambda>i. 0) 2 0 1 = Inr ([1 / 4], [0, 1, 1])
   \<and> sum_list [0, 1, 1 :: real] = sum_list (add_noise_and_clip (\<lambda>i. 0) [1, 0, 1, 0])
   \<and> [1 / 4] = threshold_scan_cuts (sample_weight_total [1 / 10, 3 / 5 :: real] None / real 2)
         (map (max 0) [1, 0, 1, 0]) [0, 1 / 4, 1 / 2, 3 / 4, 1]
   \<and> private_numeric_binning [1 / 2] None (\<lambda>i. - 1) 2 0 1
        = Inr ([], [0, sample_weight_total [1 / 2 :: real] None / real 2])"
proof -
  have h1: "histogram [1 / 10, 3 / 5] (2 * 2) 0 1 None
              = Inr ([1, 0, 1, 0], [0, 1 / 4, 1 / 2, 3 / 4, 1])"
    by code_simp
  have r1: "private_numeric_binning [1 / 10, 3 / 5] None (\<lambda>i. 0) 2 0 1 = Inr ([1 / 4], [0, 1, 1])"
    by code_simp
  have t1: "sample_weight_total [1 / 10, 3 / 5 :: real] None / real 2
              \<le> sum_list (add_noise_and_clip (\<lambda>i. 0) [1, 0, 1, 0])"
    by code_simp
  have h2: "histogram [1 / 2] (2 * 2) 0 1 None = Inr ([0, 0, 1, 0], [0, 1 / 4, 1 / 2, 3 / 4, 1])"
    by code_simp
  have r2: "private_numeric_binning [1 / 2] None (\<lambda>i. - 1) 2 0 1 = Inr ([], [0, 1 / 2])"
    by code_simp
  have t2: "sum_list (add_noise_and_clip (\<lambda>i. - 1) [0, 0, 1, 0])
              < sample_weight_total [1 / 2 :: real] None / real 2"
    by code_simp
  show ?thesis
    using private_numeric_binning_weights [OF h1 r1] private_numeric_binning_weights [OF h2 r2]
      r1 r2 t1 t2
    by simp
qed

text \<open>
  Claim C4 as stated fails when no bin reaches the target: one sample at \<open>1/2\<close> in the range
  \<open>[0, 1]\<close> with \<^verbatim>\<open>max_bins = 2\<close> and a noise draw of \<open>-1\<close> in every bucket gives noisy weights
  that are all \<open>0\<close>, and the routine returns the weights \<open>[0, 1/2]\<close>.
\<close>

theorem private_numeric_binning_sum_counterexample:
  "histogram [1 / 2] (2 * 2) 0 1 None = Inr ([0, 0, 1, 0], [0, 1 / 4, 1 / 2, 3 / 4, 1])
   \<and> private_numeric_binning [1 / 2] None (\<lambda>i. - 1) 2 0 1 = Inr ([], [0, 1 / 2])
   \<and> sum_list [0, 1 / 2 :: real] \<noteq> sum_list (add_noise_and_clip (\<lambda>i. - 1) [0, 0, 1, 0])"
  by code_simp

text \<open>
  Claim C5, as the code has it for the private mode. The cuts that
  \<^verbatim>\<open>private_numeric_binning\<close> returns are strictly increasing, each of them is an interior
  edge of the uniform histogram over the declared range, and there are at most
  \<open>2 * max_bins - 1\<close> of them, for every noise draw.
\<close>

theorem private_numeric_binning_cuts:
  assumes h: "histogram col_data (max_bins * 2) min_val max_val sample_weight
                = Inr (uniform_weights, uniform_edges)"
    and r: "private_numeric_binning col_data sample_weight noise max_bins min_val max_val
                = Inr (bin_cuts, bin_weights)"
  shows "sorted_wrt (<) bin_cuts
    \<and> set bin_cuts \<subseteq> set (butlast (tl uniform_edges))
    \<and> length bin_cuts \<le> 2 * max_bins - 1"
proof -
  define T where "T = sample_weight_total col_data sample_weight / real max_bins"
  define zs where "zs = zip (add_noise_and_clip noise uniform_weights) (tl uniform_edges)"
  obtain bw bc cw where g: "greedy_collapse T zs ([0], [hd uniform_edges], 0) = (bw, bc, cw)"
    by (cases "greedy_collapse T zs ([0], [hd uniform_edges], 0)") auto
  have res: "(Inr (bin_cuts, bin_weights) :: error + real list \<times> real list) =
     (if length bw = 1 then Inr ([], bw @ [T]) else Inr (butlast (tl bc), butlast bw @ [last bw + cw]))"
    unfolding T_def
    by (simp only: r[symmetric] private_numeric_binning_unfold[OF h g[unfolded T_def zs_def]])
  have snd_zs: "map snd zs = tl uniform_edges"
    unfolding zs_def using zip_noisy_edges[OF h] by simp
  obtain bs sel where pre: "bc = [hd uniform_edges] @ sel" and sub: "subseq sel (tl uniform_edges)"
    using greedy_collapse_prefix[OF g] snd_zs by auto
  have "subseq bin_cuts (butlast sel)"
    using res pre by (auto split: if_splits)
  moreover have "subseq (butlast sel) (butlast (tl uniform_edges))"
    using sub by (rule subseq_butlast)
  ultimately have emb: "subseq bin_cuts (butlast (tl uniform_edges))"
    by (rule subseq_order.trans)
  have "sorted_wrt (<) uniform_edges" using histogram_edges[OF h] by simp
  with subseq_butlast_tl have "sorted_wrt (<) (butlast (tl uniform_edges))"
    by (rule subseq_sorted_wrt)
  with emb have "sorted_wrt (<) bin_cuts" by (rule subseq_sorted_wrt)
  moreover have "set bin_cuts \<subseteq> set (butlast (tl uniform_edges))"
    using emb by (rule subseq_set)
  moreover have "length bin_cuts \<le> length (butlast (tl uniform_edges))"
    using emb by (rule list_emb_length)
  then have "length bin_cuts \<le> 2 * max_bins - 1"
    using histogram_edges(2)[OF h] by simp
  ultimately show ?thesis by simp
qed

theorem private_numeric_binning_cuts_witness:
  "private_numeric_binning [1 / 10, 3 / 5] None (\<lambda>i. 0) 2 0 1 = Inr ([1 / 4], [0, 1, 1])
   \<and> sorted_wrt (<) [1 / 4 :: real]
   \<and> set [1 / 4 :: real] \<subseteq> set (butlast (tl [0, 1 / 4, 1 / 2, 3 / 4, 1]))
   \<and> length [1 / 4 :: real] \<le> 2 * 2 - 1"
proof -
  have h1: "histogram [1 / 10, 3 / 5] (2 * 2) 0 1 None
              = Inr ([1, 0, 1, 0], [0, 1 / 4, 1 / 2, 3 / 4, 1])"
    by code_simp
  have r1: "private_numeric_binning [1 / 10, 3 / 5] None (\<lambda>i. 0) 2 0 1 = Inr ([1 / 4], [0, 1, 1])"
    by code_simp
  show ?thesis
    using private_numeric_binning_cuts [OF h1 r1] r1 by simp
qed

text \<open>
  Claim C5 as stated fails: the samples \<open>1/10\<close> and \<open>3/5\<close> in the range \<open>[0, 1]\<close> with
  \<^verbatim>\<open>max_bins = 2\<close> and no noise give one cut, more than \<^verbatim>\<open>max_bins - 2 = 0\<close>.
\<close>

theorem private_numeric_binning_cut_count_counterexample:
  "private_numeric_binning [1 / 10, 3 / 5] None (\<lambda>i. 0) 2 0 1 = Inr ([1 / 4], [0, 1, 1])
   \<and> \<not> length [1 / 4 :: real] \<le> 2 - 2"
  by code_simp

subsection \<open>Private categorical binning\<close>

lemma argmin_less: "xs \<noteq> [] \<Longrightarrow> argmin xs < length xs"
  by (induction xs rule: argmin.induct) (auto simp: Let_def)

lemma set_delete_at: "set (delete_at k xs) \<subseteq> set xs"
  by (auto simp: delete_at_def dest: in_set_takeD in_set_dropD)

lemma collapse_small_bins_ge:
  assumes W_nonneg: "\<And>x. x \<in> set W \<Longrightarrow> 0 \<le> x"
    and res: "collapse_small_bins U W T = (uniq_vals, weights)"
  shows "\<forall>w \<in> set weights. T \<le> w"
proof -
  define small where "small = filter (\<lambda>i. W ! i < T) [0..<length W]"
  define big where "big = map (\<lambda>i. W ! i) (filter (\<lambda>i. i \<notin> set small) [0..<length W])"
  define other where "other = sum_list (map (\<lambda>i. W ! i) small)"
  have other_nonneg: "0 \<le> other"
    unfolding other_def small_def by (rule sum_list_nonneg_real) (auto intro: W_nonneg)
  have big_ge: "T \<le> x" if "x \<in> set big" for x
    using that unfolding big_def small_def by auto
  have ok: "snd (collapse_small_bins U W T) =
      (if length small > 0 then
         if other < T then
           if length (big @ [other]) = 1 then [T]
           else delete_at (argmin (butlast (big @ [other])))
                  (butlast (big @ [other]) @
                   [last (big @ [other]) + (big @ [other]) ! argmin (butlast (big @ [other]))])
         else big @ [other]
       else W)"
    unfolding collapse_small_bins_def Let_def small_def[symmetric]
    unfolding other_def[symmetric] big_def[symmetric]
    by (simp split: if_splits)
  from res have w: "weights = snd (collapse_small_bins U W T)" by simp
  show ?thesis
  proof (cases "length small > 0")
    case False
    then have "weights = W" using w ok by simp
    moreover from False have "small = []" by simp
    then have "\<not> W ! i < T" if "i < length W" for i
      using that unfolding small_def by (auto simp: filter_empty_conv)
    ultimately show ?thesis
      by (auto simp: in_set_conv_nth not_less)
  next
    case small: True
    show ?thesis
    proof (cases "other < T")
      case False
      then have "weights = big @ [other]" using w ok small by simp
      with False big_ge show ?thesis by auto
    next
      case lt: True
      show ?thesis
      proof (cases "length (big @ [other]) = 1")
        case True
        then have "weights = [T]" using w ok small lt by simp
        then show ?thesis by simp
      next
        case False
        then have ne: "big \<noteq> []" by auto
        let ?k = "argmin big"
        have k: "?k < length big" using ne by (rule argmin_less)
        then have bk: "T \<le> big ! ?k" using big_ge by simp
        have "weights = delete_at ?k (big @ [other + big ! ?k])"
          using w ok small lt False k by (simp add: nth_append)
        then have "set weights \<subseteq> set (big @ [other + big ! ?k])"
          using set_delete_at by metis
        moreover have "T \<le> other + big ! ?k" using bk other_nonneg by simp
        ultimately show ?thesis using big_ge by auto
      qed
    qed
  qed
qed

text \<open>
  Claim C10. For \<^verbatim>\<open>max_bins >= 1\<close> and every column, weights and noise draw, every bin weight
  that \<^verbatim>\<open>private_categorical_binning\<close> returns is at least the target
  \<^verbatim>\<open>sample_weight_total / max_bins\<close>: the surviving categories meet it already, \<^verbatim>\<open>DPOther\<close>
  meets it after it has absorbed the smallest surviving bin, and a lone \<^verbatim>\<open>DPOther\<close> bin is
  set to the target.
\<close>

theorem private_categorical_binning_meets_target:
  assumes "1 \<le> max_bins"
    and "private_categorical_binning col_data sample_weight noise max_bins = Inr (uniq_vals, weights)"
  shows "\<forall>w \<in> set weights. sample_weight_total col_data sample_weight / real max_bins \<le> w"
  using assms(2)
  by (auto simp: private_categorical_binning_def Let_def split: if_splits
      dest!: collapse_small_bins_ge[rotated] intro: add_noise_and_clip_nonneg)

theorem private_categorical_binning_meets_target_witness:
  "(1::nat) \<le> 4
   \<and> private_categorical_binning [''a'', ''b'', ''b'', ''b'', ''c'', ''c'', ''c'', ''c''] None (\<lambda>i. 0) 4
       = Inr ([''c'', ''DPOther''], [4, 4])
   \<and> sample_weight_total [''a'', ''b'', ''b'', ''b'', ''c'', ''c'', ''c'', ''c''] None / real 4
       \<le> (4 :: real)"
proof -
  have b: "(1::nat) \<le> 4" by simp
  have r: "private_categorical_binning [''a'', ''b'', ''b'', ''b'', ''c'', ''c'', ''c'', ''c''] None (\<lambda>i. 0) 4
       = Inr ([''c'', ''DPOther''], [4, 4])"
    by code_simp
  show ?thesis
    using private_categorical_binning_meets_target [OF b r] r by simp
qed

subsection \<open>Centering invariant\<close>

lemma sum_list_nonneg_zero:
  assumes "\<And>x. x \<in> set xs \<Longrightarrow> (0::real) \<le> x" and "sum_list xs = 0" and "x \<in> set xs"
  shows "x = 0"
  using assms by (simp add: sum_list_nonneg_eq_0_iff)

lemma slice_sum_zero_cell:
  assumes nn: "\<forall>x \<in> set (flat w). 0 \<le> x" and z: "slice_sum w d j = 0"
    and i: "i < length (flat w)" and c: "coord (shape w) d i = j"
  shows "flat w ! i = 0"
proof -
  let ?xs = "map (\<lambda>i. flat w ! i) (filter (\<lambda>i. coord (shape w) d i = j) [0..<length (flat w)])"
  have "flat w ! i \<in> set ?xs" using i c by auto
  moreover have "0 \<le> x" if "x \<in> set ?xs" for x using that nn by auto
  moreover have "sum_list ?xs = 0" using z by (simp add: slice_sum_def)
  ultimately show ?thesis by (metis sum_list_nonneg_zero)
qed

lemma zeroed_cell_weight:
  assumes nn: "\<forall>x \<in> set (flat w). 0 \<le> x"
    and i: "i < length (flat w)"
    and z: "in_zeroed_slice (shape w)
              (map (\<lambda>d. slice_sum w d 0 = 0) [0..<n])
              (map (\<lambda>d. slice_sum w d (shape w ! d - 1) = 0) [0..<n]) i"
  shows "flat w ! i = 0"
  using z unfolding in_zeroed_slice_def
  by (auto intro: slice_sum_zero_cell[OF nn _ i])

lemma restore_term_shape: "restore_term t w = Inr t' \<Longrightarrow> shape t' = shape t \<and> length (flat t') = length (flat t)"
  by (auto simp: restore_term_def Let_def zero_tensor_def split: if_splits)

lemma restore_term_weighted:
  assumes r: "restore_term t w = Inr t'" and sh: "shape t = shape w"
    and len: "length (flat t) = length (flat w)" and nn: "\<forall>x \<in> set (flat w). 0 \<le> x"
  shows "map2 (*) (flat t') (flat w) = map2 (*) (flat t) (flat w)"
proof (rule nth_equalityI)
  show "length (map2 (*) (flat t') (flat w)) = length (map2 (*) (flat t) (flat w))"
    using restore_term_shape[OF r] by simp
next
  fix i assume "i < length (map2 (*) (flat t') (flat w))"
  then have i: "i < length (flat w)" and it: "i < length (flat t)"
    using restore_term_shape[OF r] len by simp_all
  let ?lo = "map (\<lambda>d. slice_sum w d 0 = 0) [0..<length (shape w)]"
  let ?hi = "map (\<lambda>d. slice_sum w d (shape w ! d - 1) = 0) [0..<length (shape w)]"
  from r have t': "t' = zero_tensor t ?lo ?hi"
    by (simp add: restore_term_def Let_def split: if_splits)
  show "map2 (*) (flat t') (flat w) ! i = map2 (*) (flat t) (flat w) ! i"
  proof (cases "in_zeroed_slice (shape w) ?lo ?hi i")
    case True
    then have "flat w ! i = 0" using zeroed_cell_weight[OF nn i] by simp
    then show ?thesis using i it restore_term_shape[OF r] by simp
  next
    case False
    then have "flat t' ! i = flat t ! i"
      using it sh by (simp add: t' zero_tensor_def)
    then show ?thesis using i it restore_term_shape[OF r] by simp
  qed
qed

lemma sum_list_map2_shift:
  "length xs = length ws \<Longrightarrow>
   sum_list (map2 (*) (map (\<lambda>x. x - c) xs) ws) = sum_list (map2 (*) xs ws) - c * sum_list (ws :: real list)"
  by (induction xs ws rule: list_induct2) (simp_all add: algebra_simps)

lemma weighted_mean_shift:
  assumes "length (flat t) = length (flat w)" and "sum_list (flat w) \<noteq> 0"
  shows "sum_list (map2 (*) (flat (shift t (weighted_mean t w))) (flat w)) = 0"
  using assms by (simp add: shift_def sum_list_map2_shift weighted_mean_def)

lemma center_terms_Inr:
  "center_terms ts ws c = Inr (ts', c') \<Longrightarrow>
   length ts' = length ts \<and> length ts \<le> length ws
   \<and> (\<forall>i < length ts. average (ts ! i) (ws ! i) = Inr (weighted_mean (ts ! i) (ws ! i))
         \<and> ts' ! i = shift (ts ! i) (weighted_mean (ts ! i) (ws ! i)))
   \<and> c' = c + (\<Sum>i < length ts. weighted_mean (ts ! i) (ws ! i))"
proof (induction ts ws c arbitrary: ts' c' rule: center_terms.induct)
  case (1 bin_weights intercept)
  then show ?case by simp
next
  case (2 t ts intercept)
  then show ?case by simp
next
  case (3 t ts w ws intercept)
  from "3.prems" obtain m where m: "average t w = Inr m"
    by (cases "average t w") auto
  then have mw: "m = weighted_mean t w" by (auto simp: average_def split: if_splits)
  from "3.prems" m obtain ts'' where
    rec: "center_terms ts ws (intercept + m) = Inr (ts'', c')" and ts': "ts' = shift t m # ts''"
    by (cases "center_terms ts ws (intercept + m)") auto
  note IH = "3.IH"[OF m rec]
  have "c' = intercept + (\<Sum>i < Suc (length ts). weighted_mean ((t # ts) ! i) ((w # ws) ! i))"
    using IH mw by (simp add: sum.lessThan_Suc_shift del: sum.lessThan_Suc)
  moreover have "\<forall>i < length (t # ts).
      average ((t # ts) ! i) ((w # ws) ! i) = Inr (weighted_mean ((t # ts) ! i) ((w # ws) ! i))
      \<and> ts' ! i = shift ((t # ts) ! i) (weighted_mean ((t # ts) ! i) ((w # ws) ! i))"
  proof (intro allI impI)
    fix i assume "i < length (t # ts)"
    then show "average ((t # ts) ! i) ((w # ws) ! i) = Inr (weighted_mean ((t # ts) ! i) ((w # ws) ! i))
      \<and> ts' ! i = shift ((t # ts) ! i) (weighted_mean ((t # ts) ! i) ((w # ws) ! i))"
      using IH m mw ts' by (cases i) simp_all
  qed
  ultimately show ?case using IH ts' by simp
qed

lemma restore_Inr:
  "restore_missing_value_zeros2 ts ws = Inr ts' \<Longrightarrow> length ts \<le> length ws \<Longrightarrow>
   length ts' = length ts \<and> (\<forall>i < length ts. restore_term (ts ! i) (ws ! i) = Inr (ts' ! i))"
proof (induction ts arbitrary: ws ts')
  case Nil
  then show ?case by simp
next
  case (Cons t ts)
  from Cons.prems(2) obtain w ws' where ws: "ws = w # ws'" by (cases ws) auto
  from Cons.prems(1) ws obtain t' where t': "restore_term t w = Inr t'"
    by (cases "restore_term t w") auto
  with Cons.prems(1) ws obtain ts'' where rec: "restore_missing_value_zeros2 ts ws' = Inr ts''"
    and ts': "ts' = t' # ts''"
    by (cases "restore_missing_value_zeros2 ts ws'") auto
  from Cons.prems(2) ws have "length ts \<le> length ws'" by simp
  note IH = Cons.IH[OF rec this]
  show ?case
  proof (intro conjI allI impI)
    show "length ts' = length (t # ts)" using IH ts' by simp
    fix i assume "i < length (t # ts)"
    then show "restore_term ((t # ts) ! i) (ws ! i) = Inr (ts' ! i)"
      using IH t' ts' ws by (cases i) simp_all
  qed
qed

lemma bag_averages_Inr:
  "bag_averages bagged = Inr as \<Longrightarrow>
   length as = length bagged \<and> (\<forall>i < length bagged. bag_average (bagged ! i) = Inr (as ! i))"
proof (induction bagged arbitrary: as)
  case Nil
  then show ?case by simp
next
  case (Cons bags rest)
  from Cons.prems obtain a where a: "bag_average bags = Inr a"
    by (cases "bag_average bags") auto
  with Cons.prems obtain as' where rec: "bag_averages rest = Inr as'" and as: "as = a # as'"
    by (cases "bag_averages rest") auto
  note IH = Cons.IH[OF rec]
  show ?case
  proof (intro conjI allI impI)
    show "length as = length (bags # rest)" using IH as by simp
    fix i assume "i < length (bags # rest)"
    then show "bag_average ((bags # rest) ! i) = Inr (as ! i)"
      using IH a as by (cases i) simp_all
  qed
qed

lemma bag_average_Inr:
  "bag_average bags = Inr a \<Longrightarrow> a = cellwise_mean bags \<and> bags \<noteq> []"
  by (auto simp: bag_average_def split: if_splits)

lemma cellwise_mean_shape:
  "shape (cellwise_mean bags) = shape (hd bags)"
  "length (flat (cellwise_mean bags)) = length (flat (hd bags))"
  by (simp_all add: cellwise_mean_def)


text \<open>
  Claim C1. Let the post-processing of \<^verbatim>\<open>fit\<close> for at most two classes succeed on the bags'
  score tensors and the terms' bin weights, where the bin weights are non-negative (they are
  sums of sample weights, or clipped noisy counts). Then there is one score tensor per
  term, the weighted average of every term's final score tensor under that term's bin
  weights is 0, also after the zero-restoration step, and the intercept is the sum of the
  weighted means that were subtracted from the bag-averaged tensors.
\<close>

theorem centering_invariant:
  assumes fit: "fit_postprocess bagged_additive_terms bin_weights = Inr (additive_terms, intercept)"
    and wf_w: "\<forall>w \<in> set bin_weights. wf_tensor w"
    and wf_b: "\<forall>bags \<in> set bagged_additive_terms. \<forall>b \<in> set bags. wf_tensor b"
    and nonneg: "\<forall>w \<in> set bin_weights. \<forall>x \<in> set (flat w). 0 \<le> x"
  shows "length additive_terms = length bagged_additive_terms
    \<and> (\<forall>i < length additive_terms. average (additive_terms ! i) (bin_weights ! i) = Inr 0)
    \<and> intercept = (\<Sum>i < length bagged_additive_terms.
          weighted_mean (cellwise_mean (bagged_additive_terms ! i)) (bin_weights ! i))"
proof -
  from fit obtain avgs where avgs: "bag_averages bagged_additive_terms = Inr avgs"
    by (cases "bag_averages bagged_additive_terms") (auto simp: fit_postprocess_def)
  with fit obtain centered where
    cen: "center_terms avgs bin_weights 0 = Inr (centered, intercept)"
    and res: "restore_missing_value_zeros2 centered bin_weights = Inr additive_terms"
    by (cases "center_terms avgs bin_weights 0")
       (auto simp: fit_postprocess_def split: sum.splits)
  note A = bag_averages_Inr[OF avgs]
  note C = center_terms_Inr[OF cen]
  from C have len: "length centered \<le> length bin_weights" by simp
  note R = restore_Inr[OF res len]
  have n: "length additive_terms = length bagged_additive_terms"
    using A C R by simp
  have avg_i: "avgs ! i = cellwise_mean (bagged_additive_terms ! i)" if "i < length bagged_additive_terms" for i
    using A that bag_average_Inr by blast
  have zero: "average (additive_terms ! i) (bin_weights ! i) = Inr 0" if i: "i < length additive_terms" for i
  proof -
    let ?t = "avgs ! i" and ?w = "bin_weights ! i"
    from i n A C have ia: "i < length avgs" and iw: "i < length bin_weights" by simp_all
    have av: "average ?t ?w = Inr (weighted_mean ?t ?w)"
      and ce: "centered ! i = shift ?t (weighted_mean ?t ?w)"
      using C ia by simp_all
    from av have sh: "shape ?t = shape ?w" and s0: "sum_list (flat ?w) \<noteq> 0"
      by (auto simp: average_def split: if_splits)
    have w_in: "?w \<in> set bin_weights" using iw by simp
    then have wfw: "wf_tensor ?w" and nn: "\<forall>x \<in> set (flat ?w). 0 \<le> x"
      using wf_w nonneg by blast+
    have ib: "i < length bagged_additive_terms" using i n by simp
    then have ba: "bag_average (bagged_additive_terms ! i) = Inr ?t" using A by simp
    then have ne: "bagged_additive_terms ! i \<noteq> []" and cm: "?t = cellwise_mean (bagged_additive_terms ! i)"
      using bag_average_Inr by blast+
    have "hd (bagged_additive_terms ! i) \<in> set (bagged_additive_terms ! i)" using ne by simp
    moreover have "bagged_additive_terms ! i \<in> set bagged_additive_terms" using ib by simp
    ultimately have "wf_tensor (hd (bagged_additive_terms ! i))" using wf_b by blast
    then have "length (flat ?t) = prod_list (shape ?t)"
      unfolding cm by (simp add: cellwise_mean_shape wf_tensor_def)
    with sh wfw have lt: "length (flat ?t) = length (flat ?w)"
      by (simp add: wf_tensor_def)
    have r: "restore_term (centered ! i) ?w = Inr (additive_terms ! i)"
      using R C ia by simp
    have csh: "shape (centered ! i) = shape ?w" and clen: "length (flat (centered ! i)) = length (flat ?w)"
      using sh lt by (simp_all add: ce shift_def)
    have "sum_list (map2 (*) (flat (additive_terms ! i)) (flat ?w))
        = sum_list (map2 (*) (flat (centered ! i)) (flat ?w))"
      using restore_term_weighted[OF r csh clen nn] by simp
    also have "\<dots> = 0"
      unfolding ce using lt s0 by (rule weighted_mean_shift)
    finally have "weighted_mean (additive_terms ! i) ?w = 0"
      by (simp add: weighted_mean_def)
    moreover have "shape (additive_terms ! i) = shape ?w"
      using restore_term_shape[OF r] csh by simp
    ultimately show ?thesis using s0 by (simp add: average_def)
  qed
  have "intercept = (\<Sum>i < length avgs. weighted_mean (avgs ! i) (bin_weights ! i))"
    using C by simp
  also have "\<dots> = (\<Sum>i < length bagged_additive_terms.
          weighted_mean (cellwise_mean (bagged_additive_terms ! i)) (bin_weights ! i))"
    using A avg_i by simp
  finally show ?thesis using n zero by blast
qed

theorem centering_invariant_witness:
  "fit_postprocess
     [[\<lparr>shape = [3], flat = [1, 2, 3]\<rparr>, \<lparr>shape = [3], flat = [3, 4, 5]\<rparr>],
      [\<lparr>shape = [2, 2], flat = [1, 2, 3, 4]\<rparr>]]
     [\<lparr>shape = [3], flat = [2, 1, 0]\<rparr>, \<lparr>shape = [2, 2], flat = [1, 1, 0, 0]\<rparr>]
   = Inr ([\<lparr>shape = [3], flat = [- 1 / 3, 2 / 3, 0]\<rparr>,
           \<lparr>shape = [2, 2], flat = [- 1 / 2, 1 / 2, 0, 0]\<rparr>], 23 / 6)
   \<and> average \<lparr>shape = [3], flat = [- 1 / 3, 2 / 3, 0]\<rparr> \<lparr>shape = [3], flat = [2, 1, 0]\<rparr> = Inr 0
   \<and> average \<lparr>shape = [2, 2], flat = [- 1 / 2, 1 / 2, 0, 0]\<rparr>
         \<lparr>shape = [2, 2], flat = [1, 1, 0, 0]\<rparr> = Inr 0"
proof -
  let ?bagged = "[[\<lparr>shape = [3], flat = [1, 2, 3]\<rparr>, \<lparr>shape = [3], flat = [3, 4, 5]\<rparr>],
      [\<lparr>shape = [2, 2], flat = [1, 2, 3, 4]\<rparr>]]"
  let ?weights = "[\<lparr>shape = [3], flat = [2, 1, 0]\<rparr>, \<lparr>shape = [2, 2], flat = [1, 1, 0, 0]\<rparr>]"
  let ?terms = "[\<lparr>shape = [3], flat = [- 1 / 3, 2 / 3, 0]\<rparr>,
           \<lparr>shape = [2, 2], flat = [- 1 / 2, 1 / 2, 0, 0]\<rparr>]"
  have f: "fit_postprocess ?bagged ?weights = Inr (?terms, 23 / 6)"
    by code_simp
  have w: "\<forall>w \<in> set ?weights. wf_tensor w"
    by (simp add: wf_tensor_def)
  have b: "\<forall>bags \<in> set ?bagged. \<forall>b \<in> set bags. wf_tensor b"
    by (simp add: wf_tensor_def)
  have n: "\<forall>w \<in> set ?weights. \<forall>x \<in> set (flat w). 0 \<le> x"
    by simp
  have two: "\<forall>i < length ?terms. P i \<Longrightarrow> P 0 \<and> P 1" for P
    by simp
  show ?thesis
    using centering_invariant [OF f w b n, THEN conjunct2, THEN conjunct1, THEN two] f
    by simp
qed

end
